theory Spec2Isabelle
  imports Main
begin

section \<open>The subscription manager \<open>onCacheEntryAddedInvalidate\<close>\<close>

text \<open>
  The source is the asynchronous handler
  \<^verbatim>\<open>onCacheEntryAddedInvalidate(rtkQuery, invalidates)\<close>: it awaits the cache entry's
  \<open>cacheDataLoaded\<close> promise, issues one \<open>rtkQuery\<close> subscribe call per descriptor, collects
  the handles the calls resolve to in \<open>unsubscribes\<close>, and in its \<open>finally\<close> block awaits
  \<open>cacheEntryRemoved\<close> and invokes the collected handles.

  The embedding is a deterministic state machine. The state holds what the handler's closure
  holds (where the handler is suspended, the settled state of \<open>cacheEntryRemoved\<close>, which
  subscribe calls are in flight, the array \<open>unsubscribes\<close>), the cached value, and the trace
  of the calls the handler makes on its collaborators. An event is one thing the environment
  does: it settles a promise the handler depends on, or it invokes a push handler. Every event
  is run to quiescence before the next one: the events arrive in separate turns of the event
  loop. Caller-supplied functions (\<open>skip\<close>, \<open>onUpdate\<close>, the \<open>endpoint\<close> factory) are pure
  and return normally; an unsubscribe handle may throw.
\<close>

subsection \<open>Data\<close>

text \<open>
  The type \<open>Invalidate\<close>. The handler destructures all five fields from every descriptor,
  so \<open>endpoint\<close>, \<open>onUpdate\<close> and \<open>skip\<close> are each present or absent independently.
  \<open>'v\<close> is the cached value (the draft), \<open>'p\<close> a push payload, \<open>'a\<close> the original query
  arguments, \<open>'e\<close> the endpoint object the factory returns, \<open>'s\<close> the imported type \<open>Service\<close>.
\<close>

record ('v, 'p, 'a, 'e, 's) Invalidate =
  command :: string
  service :: 's
  endpoint :: "'e option"
  onUpdate :: "('v \<Rightarrow> 'p \<Rightarrow> 'a \<Rightarrow> 'v) option"
  skip :: "('p \<Rightarrow> 'a \<Rightarrow> bool) option"

text \<open>
  An unsubscribe handle: the callable a subscribe call resolves to. \<open>throws\<close> is what
  invoking it does: return normally or throw.
\<close>

datatype handle = Handle (hid: nat) (throws: bool)

text \<open>The response of a subscribe call; \<open>data\<close> is \<open>None\<close> when the field is absent or falsy.\<close>

record response =
  data :: "handle option"

text \<open>The action \<open>currentEndpoint.initiate(args, { subscribe, forceRefetch })\<close>.\<close>

record ('a, 'e) initiate =
  target :: 'e
  arg :: 'a
  subscribe :: bool
  forceRefetch :: bool

text \<open>
  What the handler does to its collaborators, in the order it does it:
  \<open>Call c s i\<close> is \<open>rtkQuery({command: c, service: s, args: [h]}, api, {})\<close> with \<open>h\<close> the push
  handler of descriptor \<open>i\<close>; \<open>UpdateCachedData v\<close> is one call of \<open>updateCachedData\<close>, whose
  recipe left the draft at \<open>v\<close>; \<open>Dispatch\<close> is one call of \<open>dispatch\<close>; \<open>Unsubscribe h\<close> is
  one invocation of the handle \<open>h\<close>.
\<close>

datatype ('v, 'a, 'e, 's) effect =
    Call string 's nat
  | UpdateCachedData 'v
  | Dispatch "('a, 'e) initiate"
  | Unsubscribe handle

datatype signal = Pending | Resolved | Rejected

datatype task = InFlight | Settled

text \<open>
  Where the handler is suspended: at \<open>await cacheDataLoaded\<close>, at \<open>await Promise.all(...)\<close>,
  at \<open>await cacheEntryRemoved\<close> (the flag says that the \<open>try\<close> block threw, so that the
  exception is rethrown after the \<open>finally\<close> block), or finished with its promise fulfilled or
  rejected.
\<close>

datatype phase = AwaitLoaded | AwaitAll | AwaitRemoved bool | Fulfilled | Failed

record ('v, 'a, 'e, 's) state =
  phase :: phase
  removed :: signal
  tasks :: "task list"
  unsubscribes :: "handle list"
  cache :: 'v
  trace :: "('v, 'a, 'e, 's) effect list"

text \<open>
  What the environment does: \<open>cacheDataLoaded\<close> resolves or rejects, \<open>cacheEntryRemoved\<close>
  resolves or rejects, the subscribe call of descriptor \<open>i\<close> resolves with a response or
  rejects, the remote side invokes the push handler of descriptor \<open>i\<close> with a payload.
\<close>

datatype 'p event =
    Loaded
  | LoadFailed
  | Removed
  | RemoveFailed
  | Ack nat response
  | Nack nat
  | Push nat 'p

subsection \<open>The push handler\<close>

definition updateCachedData ::
  "('v \<Rightarrow> 'v) \<Rightarrow> ('v, 'a, 'e, 's) state \<Rightarrow> ('v, 'a, 'e, 's) state" where
  "updateCachedData recipe st =
     (let v = recipe (cache st) in st\<lparr>cache := v, trace := trace st @ [UpdateCachedData v]\<rparr>)"

definition dispatch ::
  "('a, 'e) initiate \<Rightarrow> ('v, 'a, 'e, 's) state \<Rightarrow> ('v, 'a, 'e, 's) state" where
  "dispatch act st = st\<lparr>trace := trace st @ [Dispatch act]\<rparr>"

text \<open>The two effects of an event that is not discarded: lines 42 to 54.\<close>

definition applyPush ::
  "('v, 'p, 'a, 'e, 's) Invalidate \<Rightarrow> 'a \<Rightarrow> 'p \<Rightarrow> ('v, 'a, 'e, 's) state \<Rightarrow> ('v, 'a, 'e, 's) state" where
  "applyPush iv args d st =
     (let st1 = (case onUpdate iv of
                   Some f \<Rightarrow> updateCachedData (\<lambda>draft. f draft d args) st
                 | None \<Rightarrow> st)
      in (case endpoint iv of
            Some e \<Rightarrow> dispatch \<lparr>target = e, arg = args, subscribe = False, forceRefetch = True\<rparr> st1
          | None \<Rightarrow> st1))"

text \<open>The callback passed in \<open>args\<close>: \<open>if (skip && !skip(data, args)) return;\<close> and the rest.\<close>

definition pushHandler ::
  "('v, 'p, 'a, 'e, 's) Invalidate \<Rightarrow> 'a \<Rightarrow> 'p \<Rightarrow> ('v, 'a, 'e, 's) state \<Rightarrow> ('v, 'a, 'e, 's) state" where
  "pushHandler iv args d st =
     (case skip iv of
        Some sk \<Rightarrow> if \<not> sk d args then st else applyPush iv args d st
      | None \<Rightarrow> applyPush iv args d st)"

subsection \<open>Activation and the \<open>finally\<close> block\<close>

text \<open>
  \<open>invalidates.map(async (invalidate) => ...)\<close>: every callback runs up to its \<open>await\<close>, so
  all the subscribe calls are made, in the order of the list, before anything else happens.
\<close>

definition activate ::
  "('v, 'p, 'a, 'e, 's) Invalidate list \<Rightarrow> ('v, 'a, 'e, 's) state \<Rightarrow> ('v, 'a, 'e, 's) state" where
  "activate invs st =
     st\<lparr>phase := AwaitAll,
        tasks := map (\<lambda>_. InFlight) invs,
        trace := trace st @ map (\<lambda>(i, iv). Call (command iv) (service iv) i) (enumerate 0 invs)\<rparr>"

text \<open>
  \<open>unsubscribes.forEach((unsubscribe) => unsubscribe())\<close>: the handles are invoked from the
  front; a throw ends the loop. The result says whether one threw.
\<close>

fun forEach_unsubscribe ::
  "handle list \<Rightarrow> ('v, 'a, 'e, 's) state \<Rightarrow> bool \<times> ('v, 'a, 'e, 's) state" where
  "forEach_unsubscribe [] st = (False, st)"
| "forEach_unsubscribe (h # hs) st =
     (let st' = st\<lparr>trace := trace st @ [Unsubscribe h]\<rparr>
      in if throws h then (True, st') else forEach_unsubscribe hs st')"

text \<open>
  The \<open>finally\<close> block once \<open>cacheEntryRemoved\<close> has resolved: the loop runs; the handler's
  promise rejects when the loop threw or the \<open>try\<close> block had thrown.
\<close>

definition afterRemoved :: "bool \<Rightarrow> ('v, 'a, 'e, 's) state \<Rightarrow> ('v, 'a, 'e, 's) state" where
  "afterRemoved thrown st =
     (case forEach_unsubscribe (unsubscribes st) st of
        (t, st') \<Rightarrow> st'\<lparr>phase := (if t \<or> thrown then Failed else Fulfilled)\<rparr>)"

text \<open>Entering the \<open>finally\<close> block: \<open>await cacheEntryRemoved\<close>.\<close>

definition finallyBlock :: "bool \<Rightarrow> ('v, 'a, 'e, 's) state \<Rightarrow> ('v, 'a, 'e, 's) state" where
  "finallyBlock thrown st =
     (case removed st of
        Pending \<Rightarrow> st\<lparr>phase := AwaitRemoved thrown\<rparr>
      | Resolved \<Rightarrow> afterRemoved thrown st
      | Rejected \<Rightarrow> st\<lparr>phase := Failed\<rparr>)"

text \<open>\<open>await Promise.all(...)\<close> resolves once every callback's promise has resolved.\<close>

definition promiseAll :: "('v, 'a, 'e, 's) state \<Rightarrow> ('v, 'a, 'e, 's) state" where
  "promiseAll st =
     (if phase st = AwaitAll \<and> list_all (\<lambda>t. t = Settled) (tasks st)
      then finallyBlock False st else st)"

subsection \<open>The handler as a state machine\<close>

text \<open>
  A promise settles once, and a push handler exists once its subscribe call has been made:
  an event that cannot happen in a state leaves it as it is.
\<close>

fun step ::
  "('v, 'p, 'a, 'e, 's) Invalidate list \<Rightarrow> 'a \<Rightarrow> ('v, 'a, 'e, 's) state \<Rightarrow> 'p event
     \<Rightarrow> ('v, 'a, 'e, 's) state" where
  "step invs args st Loaded =
     (if phase st = AwaitLoaded then promiseAll (activate invs st) else st)"
| "step invs args st LoadFailed =
     (if phase st = AwaitLoaded then finallyBlock True st else st)"
| "step invs args st Removed =
     (if removed st = Pending
      then (let st' = st\<lparr>removed := Resolved\<rparr>
            in case phase st of AwaitRemoved thrown \<Rightarrow> afterRemoved thrown st' | _ \<Rightarrow> st')
      else st)"
| "step invs args st RemoveFailed =
     (if removed st = Pending
      then (let st' = st\<lparr>removed := Rejected\<rparr>
            in case phase st of AwaitRemoved thrown \<Rightarrow> st'\<lparr>phase := Failed\<rparr> | _ \<Rightarrow> st')
      else st)"
| "step invs args st (Ack i r) =
     (if i < length (tasks st) \<and> tasks st ! i = InFlight
      then (let st1 = st\<lparr>tasks := (tasks st)[i := Settled]\<rparr>;
                st2 = (case data r of
                         Some h \<Rightarrow> st1\<lparr>unsubscribes := unsubscribes st1 @ [h]\<rparr>
                       | None \<Rightarrow> st1)
            in promiseAll st2)
      else st)"
| "step invs args st (Nack i) =
     (if i < length (tasks st) \<and> tasks st ! i = InFlight
      then (let st1 = st\<lparr>tasks := (tasks st)[i := Settled]\<rparr>
            in if phase st1 = AwaitAll then finallyBlock True st1 else st1)
      else st)"
| "step invs args st (Push i d) =
     (if i < length (tasks st) \<and> i < length invs
      then pushHandler (invs ! i) args d st else st)"

text \<open>The handler is called when the cache entry is added; \<open>v\<close> is the entry's value.\<close>

definition init :: "'v \<Rightarrow> ('v, 'a, 'e, 's) state" where
  "init v = \<lparr>phase = AwaitLoaded, removed = Pending, tasks = [], unsubscribes = [],
             cache = v, trace = []\<rparr>"

definition run ::
  "('v, 'p, 'a, 'e, 's) Invalidate list \<Rightarrow> 'a \<Rightarrow> ('v, 'a, 'e, 's) state \<Rightarrow> 'p event list
     \<Rightarrow> ('v, 'a, 'e, 's) state" where
  "run invs args st evs = foldl (step invs args) st evs"

definition exec ::
  "('v, 'p, 'a, 'e, 's) Invalidate list \<Rightarrow> 'a \<Rightarrow> 'v \<Rightarrow> 'p event list \<Rightarrow> ('v, 'a, 'e, 's) state" where
  "exec invs args v evs = run invs args (init v) evs"

subsection \<open>Reading the trace\<close>

fun is_Call :: "('v, 'a, 'e, 's) effect \<Rightarrow> bool" where
  "is_Call (Call c s i) = True"
| "is_Call _ = False"

fun is_Unsubscribe :: "('v, 'a, 'e, 's) effect \<Rightarrow> bool" where
  "is_Unsubscribe (Unsubscribe h) = True"
| "is_Unsubscribe _ = False"

fun is_UpdateCachedData :: "('v, 'a, 'e, 's) effect \<Rightarrow> bool" where
  "is_UpdateCachedData (UpdateCachedData v) = True"
| "is_UpdateCachedData _ = False"

fun is_Dispatch :: "('v, 'a, 'e, 's) effect \<Rightarrow> bool" where
  "is_Dispatch (Dispatch a) = True"
| "is_Dispatch _ = False"

definition finished :: "('v, 'a, 'e, 's) state \<Rightarrow> bool" where
  "finished st = (phase st = Fulfilled \<or> phase st = Failed)"

text \<open>A push event is accepted when \<open>skip\<close> is absent or returns true.\<close>

definition accepts :: "('v, 'p, 'a, 'e, 's) Invalidate \<Rightarrow> 'a \<Rightarrow> 'p \<Rightarrow> bool" where
  "accepts iv args d = (case skip iv of Some sk \<Rightarrow> sk d args | None \<Rightarrow> True)"

text \<open>
  The values the draft passes through when the recipe \<open>f\<close> is run once for each payload of
  \<open>ds\<close>, in the order of \<open>ds\<close>, starting from \<open>v\<close>.
\<close>

fun drafts :: "('v \<Rightarrow> 'p \<Rightarrow> 'a \<Rightarrow> 'v) \<Rightarrow> 'a \<Rightarrow> 'v \<Rightarrow> 'p list \<Rightarrow> 'v list" where
  "drafts f args v [] = []"
| "drafts f args v (d # ds) = f v d args # drafts f args (f v d args) ds"

text \<open>
  The handles a loop over \<open>hs\<close> reaches when a throw ends it: those before the first one
  that throws, and that one.
\<close>

definition invoked :: "handle list \<Rightarrow> handle list" where
  "invoked hs = takeWhile (\<lambda>h. \<not> throws h) hs @ take 1 (dropWhile (\<lambda>h. \<not> throws h) hs)"

subsection \<open>Descriptors of a wallet entry\<close>

text \<open>
  Concrete descriptors, to run the handler on: the cached value and the push payload are
  objects with the fields \<open>walletId\<close> and \<open>balance\<close>, the query argument is a wallet id.
\<close>

record wallet =
  walletId :: nat
  balance :: int

type_synonym walletInvalidate = "(wallet, wallet, nat, string, string) Invalidate"

definition setBalance :: "wallet \<Rightarrow> wallet \<Rightarrow> nat \<Rightarrow> wallet" where
  "setBalance draft p a = draft\<lparr>balance := balance p\<rparr>"

definition sameWallet :: "wallet \<Rightarrow> nat \<Rightarrow> bool" where
  "sameWallet p a = (walletId p = a)"

definition subBalance :: walletInvalidate where
  "subBalance = \<lparr>command = ''sub_balance'', service = ''wallet'', endpoint = None,
                 onUpdate = Some setBalance, skip = None\<rparr>"

definition subOwnBalance :: walletInvalidate where
  "subOwnBalance = \<lparr>command = ''sub_balance'', service = ''wallet'', endpoint = None,
                    onUpdate = Some setBalance, skip = Some sameWallet\<rparr>"

definition subTransactions :: walletInvalidate where
  "subTransactions = \<lparr>command = ''sub_transactions'', service = ''wallet'',
                      endpoint = Some ''getTransactions'', onUpdate = None, skip = None\<rparr>"

definition subBoth :: walletInvalidate where
  "subBoth = \<lparr>command = ''sub_coins'', service = ''wallet'',
              endpoint = Some ''getTransactions'', onUpdate = Some setBalance, skip = None\<rparr>"

definition w0 :: wallet where
  "w0 = \<lparr>walletId = 1, balance = 0\<rparr>"

definition active :: "walletInvalidate list \<Rightarrow> (wallet, nat, string, string) state" where
  "active invs = exec invs 1 w0 [Loaded]"

subsection \<open>States after a failed load\<close>

text \<open>
  The states the handler is in once \<open>cacheDataLoaded\<close> has rejected: nothing was called and
  nothing collected, and the handler is suspended at \<open>await cacheEntryRemoved\<close> for as long
  as that promise is pending.
\<close>

definition loadFailedState :: "('v, 'a, 'e, 's) state \<Rightarrow> bool" where
  "loadFailedState st =
     (tasks st = [] \<and> unsubscribes st = [] \<and> trace st = []
      \<and> phase st = (if removed st = Pending then AwaitRemoved True else Failed))"

section \<open>Properties\<close>

subsection \<open>Fields the push handler leaves alone\<close>

lemma updateCachedData_fields [simp]:
  "phase (updateCachedData g st) = phase st"
  "removed (updateCachedData g st) = removed st"
  "tasks (updateCachedData g st) = tasks st"
  "unsubscribes (updateCachedData g st) = unsubscribes st"
  "cache (updateCachedData g st) = g (cache st)"
  "trace (updateCachedData g st) = trace st @ [UpdateCachedData (g (cache st))]"
  by (simp_all add: updateCachedData_def Let_def)

lemma dispatch_fields [simp]:
  "phase (dispatch a st) = phase st"
  "removed (dispatch a st) = removed st"
  "tasks (dispatch a st) = tasks st"
  "unsubscribes (dispatch a st) = unsubscribes st"
  "cache (dispatch a st) = cache st"
  "trace (dispatch a st) = trace st @ [Dispatch a]"
  by (simp_all add: dispatch_def)

lemma applyPush_fields [simp]:
  "phase (applyPush iv args d st) = phase st"
  "removed (applyPush iv args d st) = removed st"
  "tasks (applyPush iv args d st) = tasks st"
  "unsubscribes (applyPush iv args d st) = unsubscribes st"
  by (simp_all add: applyPush_def Let_def split: option.splits)

lemma pushHandler_fields [simp]:
  "phase (pushHandler iv args d st) = phase st"
  "removed (pushHandler iv args d st) = removed st"
  "tasks (pushHandler iv args d st) = tasks st"
  "unsubscribes (pushHandler iv args d st) = unsubscribes st"
  by (simp_all add: pushHandler_def split: option.splits)

lemma pushHandler_accepted:
  "accepts iv args d \<Longrightarrow> pushHandler iv args d st = applyPush iv args d st"
  by (simp add: pushHandler_def accepts_def split: option.splits)

lemma pushHandler_no_Call [simp]:
  "filter is_Call (trace (pushHandler iv args d st)) = filter is_Call (trace st)"
  by (simp add: pushHandler_def applyPush_def Let_def split: option.splits)

lemma pushHandler_no_Unsubscribe [simp]:
  "filter is_Unsubscribe (trace (pushHandler iv args d st)) = filter is_Unsubscribe (trace st)"
  by (simp add: pushHandler_def applyPush_def Let_def split: option.splits)

lemma run_Nil [simp]: "run invs args st [] = st"
  by (simp add: run_def)

lemma run_Cons [simp]: "run invs args st (ev # evs) = run invs args (step invs args st ev) evs"
  by (simp add: run_def)

lemma run_append [simp]:
  "run invs args st (xs @ ys) = run invs args (run invs args st xs) ys"
  by (simp add: run_def)

lemma active_fields:
  "phase (active [iv]) = AwaitAll" "tasks (active [iv]) = [InFlight]"
  "removed (active [iv]) = Pending" "unsubscribes (active [iv]) = []"
  "cache (active [iv]) = w0"
  "trace (active [iv]) = [Call (command iv) (service iv) 0]"
  by (simp_all add: active_def exec_def init_def activate_def promiseAll_def enumerate_eq_zip)

subsection \<open>The skip predicate\<close>

text \<open>
  C2. A push event delivered to the handler of a descriptor whose \<open>skip\<close> is present is
  applied if and only if \<open>skip(data, args)\<close> returns true. When it returns false the state is
  left as it was: the cached value is unchanged and no effect is added to the trace, so no
  refetch of a dependent endpoint is dispatched.
\<close>

theorem push_applied_iff_skip_true:
  assumes "i < length invs" and "i < length (tasks st)" and "skip (invs ! i) = Some sk"
  shows "step invs args st (Push i d) = (if sk d args then applyPush (invs ! i) args d st else st)
         \<and> (\<not> sk d args \<longrightarrow> cache (step invs args st (Push i d)) = cache st
                             \<and> trace (step invs args st (Push i d)) = trace st)"
  using assms by (simp add: pushHandler_def)

theorem push_applied_iff_skip_true_witness:
  "step [subOwnBalance] 1 (active [subOwnBalance]) (Push 0 \<lparr>walletId = 2, balance = 5\<rparr>)
     = active [subOwnBalance]
   \<and> cache (step [subOwnBalance] 1 (active [subOwnBalance]) (Push 0 \<lparr>walletId = 1, balance = 5\<rparr>))
     = \<lparr>walletId = 1, balance = 5\<rparr>"
  using push_applied_iff_skip_true [of 0 "[subOwnBalance]" "active [subOwnBalance]" sameWallet 1
      "\<lparr>walletId = 2, balance = 5\<rparr>"]
    push_applied_iff_skip_true [of 0 "[subOwnBalance]" "active [subOwnBalance]" sameWallet 1
      "\<lparr>walletId = 1, balance = 5\<rparr>"]
  by (simp add: active_fields subOwnBalance_def sameWallet_def applyPush_def setBalance_def w0_def)

subsection \<open>Accepted push events\<close>

lemma step_Push_accepted:
  assumes "i < length invs" and "i < length (tasks st)" and "accepts (invs ! i) args d"
  shows "step invs args st (Push i d) = applyPush (invs ! i) args d st"
  using assms by (simp add: pushHandler_accepted)

lemma applyPush_updates:
  "onUpdate iv = Some f \<Longrightarrow>
     cache (applyPush iv args d st) = f (cache st) d args \<and>
     filter is_UpdateCachedData (trace (applyPush iv args d st))
       = filter is_UpdateCachedData (trace st) @ [UpdateCachedData (f (cache st) d args)]"
  by (simp add: applyPush_def Let_def split: option.splits)

lemma step_Push_discarded:
  assumes "\<not> accepts (invs ! i) args d"
  shows "step invs args st (Push i d) = st"
  using assms by (simp add: pushHandler_def accepts_def split: option.splits)

text \<open>
  C4. On a descriptor declaring \<open>onUpdate\<close>, a sequence of push events runs the recipe once
  for each accepted event, in arrival order: the cached value ends as the recipe folded from
  the left over the payloads of the accepted events, and the calls of \<open>updateCachedData\<close>
  added to the trace are exactly one for each accepted event, leaving the draft at the
  successive values. With the recipe that sets the balance from the payload, the pushes of
  balance 5 and then 7 leave the balance at 7 after a write of 5.
\<close>

theorem onUpdate_once_per_event_in_order:
  assumes "i < length invs" and "i < length (tasks st)" and "onUpdate (invs ! i) = Some f"
  shows "cache (run invs args st (map (Push i) ds))
           = foldl (\<lambda>v d. f v d args) (cache st) (filter (accepts (invs ! i) args) ds)
         \<and> filter is_UpdateCachedData (trace (run invs args st (map (Push i) ds)))
             = filter is_UpdateCachedData (trace st)
                 @ map UpdateCachedData
                     (drafts f args (cache st) (filter (accepts (invs ! i) args) ds))"
  using assms
proof (induction ds arbitrary: st)
  case Nil
  then show ?case by simp
next
  case (Cons d ds)
  let ?st' = "step invs args st (Push i d)"
  have r: "run invs args st (map (Push i) (d # ds)) = run invs args ?st' (map (Push i) ds)"
    by simp
  show ?case
  proof (cases "accepts (invs ! i) args d")
    case True
    have st': "?st' = applyPush (invs ! i) args d st"
      using Cons.prems(1,2) True by (rule step_Push_accepted)
    have len: "i < length (tasks ?st')"
      unfolding st' using Cons.prems(2) by simp
    have upd: "cache ?st' = f (cache st) d args"
      "filter is_UpdateCachedData (trace ?st')
         = filter is_UpdateCachedData (trace st) @ [UpdateCachedData (f (cache st) d args)]"
      unfolding st' using applyPush_updates [OF Cons.prems(3), of args d st] by simp_all
    from Cons.IH [OF Cons.prems(1) len Cons.prems(3)] upd True
    show ?thesis unfolding r by simp
  next
    case False
    have st': "?st' = st"
      using False by (rule step_Push_discarded)
    from Cons.IH [OF Cons.prems] False
    show ?thesis unfolding r st' by simp
  qed
qed

theorem onUpdate_once_per_event_in_order_witness:
  "cache (run [subBalance] 1 (active [subBalance])
            [Push 0 \<lparr>walletId = 1, balance = 5\<rparr>, Push 0 \<lparr>walletId = 1, balance = 7\<rparr>])
     = \<lparr>walletId = 1, balance = 7\<rparr>
   \<and> filter is_UpdateCachedData (trace (run [subBalance] 1 (active [subBalance])
            [Push 0 \<lparr>walletId = 1, balance = 5\<rparr>, Push 0 \<lparr>walletId = 1, balance = 7\<rparr>]))
     = [UpdateCachedData \<lparr>walletId = 1, balance = 5\<rparr>, UpdateCachedData \<lparr>walletId = 1, balance = 7\<rparr>]"
  using onUpdate_once_per_event_in_order [of 0 "[subBalance]" "active [subBalance]" setBalance 1
      "[\<lparr>walletId = 1, balance = 5\<rparr>, \<lparr>walletId = 1, balance = 7\<rparr>]"]
  by (simp add: active_fields subBalance_def accepts_def setBalance_def w0_def)

text \<open>
  C9. Nothing checks that a descriptor has only one of \<open>onUpdate\<close> and \<open>endpoint\<close>. With
  both, an accepted push event has both effects: first the call of \<open>updateCachedData\<close> that
  runs the recipe on the cached value, then the dispatch of the forced refetch.
\<close>

theorem both_triggers_update_then_dispatch:
  assumes "i < length invs" and "i < length (tasks st)" and "accepts (invs ! i) args d"
    and "onUpdate (invs ! i) = Some f" and "endpoint (invs ! i) = Some e"
  shows "trace (step invs args st (Push i d))
           = trace st @ [UpdateCachedData (f (cache st) d args),
                         Dispatch \<lparr>target = e, arg = args, subscribe = False, forceRefetch = True\<rparr>]
         \<and> cache (step invs args st (Push i d)) = f (cache st) d args"
  using assms by (simp add: pushHandler_accepted applyPush_def)

theorem both_triggers_update_then_dispatch_witness:
  "trace (step [subBoth] 1 (active [subBoth]) (Push 0 \<lparr>walletId = 1, balance = 9\<rparr>))
     = [Call ''sub_coins'' ''wallet'' 0,
        UpdateCachedData \<lparr>walletId = 1, balance = 9\<rparr>,
        Dispatch \<lparr>target = ''getTransactions'', arg = 1, subscribe = False, forceRefetch = True\<rparr>]
   \<and> cache (step [subBoth] 1 (active [subBoth]) (Push 0 \<lparr>walletId = 1, balance = 9\<rparr>))
     = \<lparr>walletId = 1, balance = 9\<rparr>"
  using both_triggers_update_then_dispatch [of 0 "[subBoth]" "active [subBoth]" 1
      "\<lparr>walletId = 1, balance = 9\<rparr>" setBalance "''getTransactions''"]
  by (simp add: active_fields subBoth_def accepts_def setBalance_def w0_def)

text \<open>
  C5, as far as it holds. On a descriptor declaring \<open>endpoint\<close>, an accepted push event
  dispatches \<open>initiate(args, { subscribe: false, forceRefetch: true })\<close> of the dependent
  query exactly once. When the descriptor does not declare \<open>onUpdate\<close> as well, the event
  neither changes the cached value nor calls \<open>updateCachedData\<close>.
\<close>

theorem endpoint_dispatches_one_forced_refetch:
  assumes "i < length invs" and "i < length (tasks st)" and "accepts (invs ! i) args d"
    and "endpoint (invs ! i) = Some e"
  shows "filter is_Dispatch (trace (step invs args st (Push i d)))
           = filter is_Dispatch (trace st)
               @ [Dispatch \<lparr>target = e, arg = args, subscribe = False, forceRefetch = True\<rparr>]
         \<and> (onUpdate (invs ! i) = None \<longrightarrow>
               cache (step invs args st (Push i d)) = cache st
               \<and> filter is_UpdateCachedData (trace (step invs args st (Push i d)))
                   = filter is_UpdateCachedData (trace st))"
  using assms by (simp add: pushHandler_accepted applyPush_def Let_def split: option.splits)

text \<open>
  The scenario with two descriptors on one entry, the first with \<open>onUpdate\<close> and the second
  with \<open>endpoint\<close>: a push to the second one dispatches one forced refetch and leaves the
  cached value alone.
\<close>

theorem endpoint_dispatches_one_forced_refetch_witness:
  "filter is_Dispatch (trace (exec [subBalance, subTransactions] 1 w0
       [Loaded, Push 1 \<lparr>walletId = 1, balance = 5\<rparr>]))
     = [Dispatch \<lparr>target = ''getTransactions'', arg = 1, subscribe = False, forceRefetch = True\<rparr>]
   \<and> cache (exec [subBalance, subTransactions] 1 w0 [Loaded, Push 1 \<lparr>walletId = 1, balance = 5\<rparr>])
     = w0
   \<and> filter is_UpdateCachedData (trace (exec [subBalance, subTransactions] 1 w0
       [Loaded, Push 1 \<lparr>walletId = 1, balance = 5\<rparr>])) = []"
  using endpoint_dispatches_one_forced_refetch [of 1 "[subBalance, subTransactions]"
      "exec [subBalance, subTransactions] 1 w0 [Loaded]" 1 "\<lparr>walletId = 1, balance = 5\<rparr>"
      "''getTransactions''"]
  by (simp add: exec_def init_def activate_def promiseAll_def enumerate_eq_zip
      subBalance_def subTransactions_def accepts_def)

text \<open>
  C5, as it is stated, fails on a descriptor that declares \<open>endpoint\<close> and \<open>onUpdate\<close>
  together: the accepted push event changes the cached value.
\<close>

theorem endpoint_push_mutates_cache_counterexample:
  "endpoint subBoth = Some ''getTransactions''
   \<and> accepts subBoth 1 \<lparr>walletId = 1, balance = 9\<rparr>
   \<and> cache (exec [subBoth] 1 w0 [Loaded]) = \<lparr>walletId = 1, balance = 0\<rparr>
   \<and> cache (exec [subBoth] 1 w0 [Loaded, Push 0 \<lparr>walletId = 1, balance = 9\<rparr>])
       = \<lparr>walletId = 1, balance = 9\<rparr>
   \<and> cache (exec [subBoth] 1 w0 [Loaded, Push 0 \<lparr>walletId = 1, balance = 9\<rparr>])
       \<noteq> cache (exec [subBoth] 1 w0 [Loaded])"
  by (simp add: exec_def init_def activate_def promiseAll_def enumerate_eq_zip
      subBoth_def accepts_def pushHandler_def applyPush_def setBalance_def w0_def)

subsection \<open>The loop over the handles in closed form\<close>

lemma invoked_Nil [simp]: "invoked [] = []"
  by (simp add: invoked_def)

lemma invoked_Cons [simp]: "invoked (h # hs) = h # (if throws h then [] else invoked hs)"
  by (simp add: invoked_def)

lemma invoked_no_throw: "\<not> list_ex throws hs \<Longrightarrow> invoked hs = hs"
  by (induction hs) simp_all


lemma forEach_unsubscribe_eq:
  "forEach_unsubscribe hs st
     = (list_ex throws hs, st\<lparr>trace := trace st @ map Unsubscribe (invoked hs)\<rparr>)"
  by (induction hs arbitrary: st) (simp_all add: Let_def)

lemma afterRemoved_eq:
  "afterRemoved thrown st
     = st\<lparr>trace := trace st @ map Unsubscribe (invoked (unsubscribes st)),
          phase := (if list_ex throws (unsubscribes st) \<or> thrown then Failed else Fulfilled)\<rparr>"
  by (simp add: afterRemoved_def forEach_unsubscribe_eq)

lemma filter_map_Unsubscribe [simp]:
  "filter is_Call (map Unsubscribe hs) = []"
  "filter is_Unsubscribe (map Unsubscribe hs) = map Unsubscribe hs"
  "filter is_UpdateCachedData (map Unsubscribe hs) = []"
  "filter is_Dispatch (map Unsubscribe hs) = []"
  by (induction hs) simp_all

subsection \<open>The subscribe calls\<close>

lemma calls_enumerate:
  "map (\<lambda>(i, iv). Call (command iv) (service iv) i) (enumerate n invs)
     = map (\<lambda>i. Call (command (invs ! (i - n))) (service (invs ! (i - n))) i) [n..<n + length invs]"
  by (rule nth_equalityI) (simp_all add: nth_enumerate_eq)

lemma filter_is_Call_calls [simp]:
  "filter is_Call (map (\<lambda>i. Call (c i) (s i) i) ns) = map (\<lambda>i. Call (c i) (s i) i) ns"
  "filter is_Unsubscribe (map (\<lambda>i. Call (c i) (s i) i) ns) = []"
  by (induction ns) simp_all

lemma activate_fields [simp]:
  "phase (activate invs st) = AwaitAll"
  "removed (activate invs st) = removed st"
  "tasks (activate invs st) = map (\<lambda>_. InFlight) invs"
  "unsubscribes (activate invs st) = unsubscribes st"
  "cache (activate invs st) = cache st"
  "trace (activate invs st)
     = trace st @ map (\<lambda>i. Call (command (invs ! i)) (service (invs ! i)) i) [0..<length invs]"
  using calls_enumerate [of 0 invs] by (simp_all add: activate_def)

lemma finallyBlock_calls [simp]:
  "filter is_Call (trace (finallyBlock thrown st)) = filter is_Call (trace st)"
  by (simp add: finallyBlock_def afterRemoved_eq split: signal.splits)

lemma promiseAll_calls [simp]:
  "filter is_Call (trace (promiseAll st)) = filter is_Call (trace st)"
  by (simp add: promiseAll_def)

lemma finallyBlock_phase [simp]: "phase (finallyBlock thrown st) \<noteq> AwaitLoaded"
  by (simp add: finallyBlock_def afterRemoved_eq split: signal.splits)

lemma promiseAll_phase: "phase st \<noteq> AwaitLoaded \<Longrightarrow> phase (promiseAll st) \<noteq> AwaitLoaded"
  by (simp add: promiseAll_def)

text \<open>Before \<open>cacheDataLoaded\<close> settles, an event can only settle \<open>cacheEntryRemoved\<close>.\<close>

lemma step_waiting:
  assumes "phase st = AwaitLoaded" and "tasks st = []" and "ev \<noteq> Loaded" and "ev \<noteq> LoadFailed"
  shows "phase (step invs args st ev) = AwaitLoaded \<and> tasks (step invs args st ev) = []
         \<and> trace (step invs args st ev) = trace st
         \<and> unsubscribes (step invs args st ev) = unsubscribes st
         \<and> cache (step invs args st ev) = cache st"
  using assms by (cases ev) simp_all

lemma run_waiting:
  assumes "phase st = AwaitLoaded" and "tasks st = []"
    and "Loaded \<notin> set pre" and "LoadFailed \<notin> set pre"
  shows "phase (run invs args st pre) = AwaitLoaded \<and> tasks (run invs args st pre) = []
         \<and> trace (run invs args st pre) = trace st
         \<and> unsubscribes (run invs args st pre) = unsubscribes st
         \<and> cache (run invs args st pre) = cache st"
  using assms
proof (induction pre arbitrary: st)
  case Nil
  then show ?case by simp
next
  case (Cons ev pre)
  have ev: "ev \<noteq> Loaded" "ev \<noteq> LoadFailed" and pre: "Loaded \<notin> set pre" "LoadFailed \<notin> set pre"
    using Cons.prems(3,4) by auto
  note s = step_waiting [OF Cons.prems(1,2) ev, of invs args]
  from s have "phase (step invs args st ev) = AwaitLoaded" "tasks (step invs args st ev) = []"
    by blast+
  from Cons.IH [OF this pre] s show ?case
    by (simp del: step.simps)
qed

text \<open>Once the handler is past \<open>await cacheDataLoaded\<close>, no event makes it call \<open>rtkQuery\<close>.\<close>

lemma step_no_new_call:
  assumes "phase st \<noteq> AwaitLoaded"
  shows "filter is_Call (trace (step invs args st ev)) = filter is_Call (trace st)
         \<and> phase (step invs args st ev) \<noteq> AwaitLoaded"
  using assms
  by (cases ev) (auto simp: Let_def afterRemoved_eq promiseAll_phase split: phase.splits option.splits)

lemma run_no_new_call:
  assumes "phase st \<noteq> AwaitLoaded"
  shows "filter is_Call (trace (run invs args st evs)) = filter is_Call (trace st)
         \<and> phase (run invs args st evs) \<noteq> AwaitLoaded"
  using assms
proof (induction evs arbitrary: st)
  case Nil
  then show ?case by simp
next
  case (Cons ev evs)
  from step_no_new_call [OF Cons.prems, of invs args ev] Cons.IH [of "step invs args st ev"]
  show ?case by (simp del: step.simps)
qed

lemma init_fields [simp]:
  "phase (init v) = AwaitLoaded" "removed (init v) = Pending" "tasks (init v) = []"
  "unsubscribes (init v) = []" "cache (init v) = v" "trace (init v) = []"
  by (simp_all add: init_def)

lemma step_Loaded_calls:
  assumes "phase st = AwaitLoaded"
  shows "filter is_Call (trace (step invs args st Loaded))
           = filter is_Call (trace st)
               @ map (\<lambda>i. Call (command (invs ! i)) (service (invs ! i)) i) [0..<length invs]
         \<and> phase (step invs args st Loaded) \<noteq> AwaitLoaded"
  using assms by (simp add: promiseAll_phase)

lemma calls_after_Loaded:
  assumes "Loaded \<notin> set pre" and "LoadFailed \<notin> set pre"
  shows "filter is_Call (trace (exec invs args v (pre @ Loaded # post)))
           = map (\<lambda>i. Call (command (invs ! i)) (service (invs ! i)) i) [0..<length invs]"
proof -
  let ?st = "run invs args (init v) pre"
  have w: "phase ?st = AwaitLoaded" "trace ?st = []"
    using run_waiting [OF _ _ assms, of "init v" invs args] by simp_all
  have l: "filter is_Call (trace (step invs args ?st Loaded))
             = map (\<lambda>i. Call (command (invs ! i)) (service (invs ! i)) i) [0..<length invs]"
    "phase (step invs args ?st Loaded) \<noteq> AwaitLoaded"
    using step_Loaded_calls [OF w(1), of invs args] w(2) by simp_all
  show ?thesis
    using run_no_new_call [OF l(2), of invs args post] l(1)
    by (simp add: exec_def del: step.simps)
qed

text \<open>
  C3. Once \<open>cacheDataLoaded\<close> has resolved, the subscribe calls in the trace are exactly one
  for each descriptor, in the order of the list, each with the descriptor's command and
  service and with the descriptor's own push handler as its argument: \<open>N\<close> calls for \<open>N\<close>
  descriptors. This holds after any events that follow, so whatever the order and the
  outcome of the acknowledgments.
\<close>

theorem activation_issues_one_call_per_descriptor:
  assumes "Loaded \<notin> set pre" and "LoadFailed \<notin> set pre"
  shows "filter is_Call (trace (exec invs args v (pre @ Loaded # post)))
           = map (\<lambda>i. Call (command (invs ! i)) (service (invs ! i)) i) [0..<length invs]
         \<and> length (filter is_Call (trace (exec invs args v (pre @ Loaded # post)))) = length invs"
  using calls_after_Loaded [OF assms, of invs args v post] by simp

theorem activation_issues_one_call_per_descriptor_witness:
  "filter is_Call (trace (exec [subBalance, subTransactions] 1 w0
       ([Removed] @ Loaded # [Nack 1, Ack 0 \<lparr>data = Some (Handle 3 False)\<rparr>])))
     = [Call ''sub_balance'' ''wallet'' 0, Call ''sub_transactions'' ''wallet'' 1]
   \<and> length (filter is_Call (trace (exec [subBalance, subTransactions] 1 w0
       ([Removed] @ Loaded # [Nack 1, Ack 0 \<lparr>data = Some (Handle 3 False)\<rparr>])))) = 2"
  using activation_issues_one_call_per_descriptor [of "[Removed]" "[subBalance, subTransactions]"
      1 w0 "[Nack 1, Ack 0 \<lparr>data = Some (Handle 3 False)\<rparr>]"]
  by (simp add: subBalance_def subTransactions_def upt_rec)

subsection \<open>Removal before the data loads\<close>

lemma finallyBlock_loadFailedState:
  assumes "tasks st = []" and "unsubscribes st = []" and "trace st = []"
  shows "loadFailedState (finallyBlock True st) \<and> cache (finallyBlock True st) = cache st"
  using assms by (simp add: loadFailedState_def finallyBlock_def afterRemoved_eq split: signal.splits)

lemma step_loadFailedState:
  assumes "loadFailedState st"
  shows "loadFailedState (step invs args st ev) \<and> cache (step invs args st ev) = cache st"
  using assms by (cases ev) (auto simp: loadFailedState_def afterRemoved_eq split: if_splits)

lemma run_loadFailedState:
  assumes "loadFailedState st"
  shows "loadFailedState (run invs args st evs) \<and> cache (run invs args st evs) = cache st"
  using assms
proof (induction evs arbitrary: st)
  case Nil
  then show ?case by simp
next
  case (Cons ev evs)
  from step_loadFailedState [OF Cons.prems, of invs args ev] Cons.IH [of "step invs args st ev"]
  show ?case by (simp del: step.simps)
qed

lemma exec_LoadFailed:
  assumes "Loaded \<notin> set pre" and "LoadFailed \<notin> set pre"
  shows "loadFailedState (exec invs args v (pre @ LoadFailed # post))
         \<and> cache (exec invs args v (pre @ LoadFailed # post)) = v"
proof -
  let ?st = "run invs args (init v) pre"
  have w: "phase ?st = AwaitLoaded" "tasks ?st = []" "trace ?st = []" "unsubscribes ?st = []"
    "cache ?st = v"
    using run_waiting [OF _ _ assms, of "init v" invs args] by simp_all
  have "step invs args ?st LoadFailed = finallyBlock True ?st"
    using w(1) by simp
  with finallyBlock_loadFailedState [OF w(2,4,3)] w(5)
  have "loadFailedState (step invs args ?st LoadFailed)" "cache (step invs args ?st LoadFailed) = v"
    by simp_all
  with run_loadFailedState [of "step invs args ?st LoadFailed" invs args post]
  show ?thesis by (simp add: exec_def del: step.simps)
qed

text \<open>
  C8. When \<open>cacheDataLoaded\<close> rejects, then, whatever happens before and after, the handler
  makes no subscribe call and invokes no unsubscribe handle (its trace stays empty and the
  cached value is untouched), and it has finished exactly when \<open>cacheEntryRemoved\<close> has
  settled: until then it is suspended at the \<open>await\<close> of its \<open>finally\<close> block, and afterwards
  its promise is rejected.
\<close>

theorem load_failure_no_calls_awaits_removed:
  assumes "Loaded \<notin> set pre" and "LoadFailed \<notin> set pre"
  shows "filter is_Call (trace (exec invs args v (pre @ LoadFailed # post))) = []
         \<and> filter is_Unsubscribe (trace (exec invs args v (pre @ LoadFailed # post))) = []
         \<and> trace (exec invs args v (pre @ LoadFailed # post)) = []
         \<and> cache (exec invs args v (pre @ LoadFailed # post)) = v
         \<and> phase (exec invs args v (pre @ LoadFailed # post))
             = (if removed (exec invs args v (pre @ LoadFailed # post)) = Pending
                then AwaitRemoved True else Failed)
         \<and> finished (exec invs args v (pre @ LoadFailed # post))
             = (removed (exec invs args v (pre @ LoadFailed # post)) \<noteq> Pending)"
  using exec_LoadFailed [OF assms, of invs args v post]
  by (simp add: loadFailedState_def finished_def)

theorem load_failure_no_calls_awaits_removed_witness:
  "trace (exec [subBalance, subTransactions] 1 w0 ([] @ LoadFailed # [Push 0 w0])) = []
   \<and> phase (exec [subBalance, subTransactions] 1 w0 ([] @ LoadFailed # [Push 0 w0]))
       = AwaitRemoved True
   \<and> \<not> finished (exec [subBalance, subTransactions] 1 w0 ([] @ LoadFailed # [Push 0 w0]))
   \<and> trace (exec [subBalance, subTransactions] 1 w0 ([Removed] @ LoadFailed # [])) = []
   \<and> phase (exec [subBalance, subTransactions] 1 w0 ([Removed] @ LoadFailed # [])) = Failed
   \<and> finished (exec [subBalance, subTransactions] 1 w0 ([Removed] @ LoadFailed # []))"
  using load_failure_no_calls_awaits_removed [of "[]" "[subBalance, subTransactions]" 1 w0 "[Push 0 w0]"]
    load_failure_no_calls_awaits_removed [of "[Removed]" "[subBalance, subTransactions]" 1 w0 "[]"]
  by (simp add: exec_def finallyBlock_def afterRemoved_eq finished_def)

subsection \<open>What the \<open>finally\<close> block leaves alone\<close>

lemma afterRemoved_fields [simp]:
  "removed (afterRemoved thrown st) = removed st"
  "tasks (afterRemoved thrown st) = tasks st"
  "unsubscribes (afterRemoved thrown st) = unsubscribes st"
  "cache (afterRemoved thrown st) = cache st"
  by (simp_all add: afterRemoved_eq)

lemma finallyBlock_fields [simp]:
  "removed (finallyBlock thrown st) = removed st"
  "tasks (finallyBlock thrown st) = tasks st"
  "unsubscribes (finallyBlock thrown st) = unsubscribes st"
  "cache (finallyBlock thrown st) = cache st"
  by (simp_all add: finallyBlock_def split: signal.splits)

lemma promiseAll_fields [simp]:
  "removed (promiseAll st) = removed st"
  "tasks (promiseAll st) = tasks st"
  "unsubscribes (promiseAll st) = unsubscribes st"
  "cache (promiseAll st) = cache st"
  by (simp_all add: promiseAll_def)

lemma promiseAll_other_phase: "phase st \<noteq> AwaitAll \<Longrightarrow> promiseAll st = st"
  by (simp add: promiseAll_def)

text \<open>A finished handler invokes no handle.\<close>

lemma step_finished:
  assumes "finished st"
  shows "finished (step invs args st ev)
         \<and> filter is_Unsubscribe (trace (step invs args st ev)) = filter is_Unsubscribe (trace st)"
  using assms
  by (cases ev) (auto simp: finished_def Let_def promiseAll_other_phase split: option.splits)

lemma run_finished:
  assumes "finished st"
  shows "finished (run invs args st evs)
         \<and> filter is_Unsubscribe (trace (run invs args st evs)) = filter is_Unsubscribe (trace st)"
  using assms
proof (induction evs arbitrary: st)
  case Nil
  then show ?case by simp
next
  case (Cons ev evs)
  from step_finished [OF Cons.prems, of invs args ev] Cons.IH [of "step invs args st ev"]
  show ?case by (simp del: step.simps)
qed

subsection \<open>Handles are invoked only by the teardown\<close>

lemma step_unsubscribes_mono:
  "set (unsubscribes st) \<subseteq> set (unsubscribes (step invs args st ev))"
  by (cases ev) (auto simp: Let_def split: phase.splits option.splits)

lemma run_unsubscribes_mono:
  "set (unsubscribes st) \<subseteq> set (unsubscribes (run invs args st evs))"
proof (induction evs arbitrary: st)
  case Nil
  then show ?case by simp
next
  case (Cons ev evs)
  from step_unsubscribes_mono [of st invs args ev] Cons.IH [of "step invs args st ev"]
  show ?case by (auto simp del: step.simps)
qed

lemma not_in_trace:
  "filter is_Unsubscribe tr = [] \<Longrightarrow> Unsubscribe h \<notin> set tr"
  by (auto simp: filter_empty_conv)

text \<open>
  The handler between activation and teardown: while it is suspended at
  \<open>await cacheEntryRemoved\<close> and that promise is pending, an event other than its settling
  leaves the handler suspended there and invokes no handle.
\<close>

lemma step_awaiting_removed:
  assumes "phase st = AwaitRemoved thrown" and "removed st = Pending"
    and "ev \<noteq> Removed" and "ev \<noteq> RemoveFailed"
  shows "phase (step invs args st ev) = AwaitRemoved thrown \<and> removed (step invs args st ev) = Pending
         \<and> filter is_Unsubscribe (trace (step invs args st ev)) = filter is_Unsubscribe (trace st)"
  using assms by (cases ev) (auto simp: Let_def promiseAll_other_phase split: option.splits)

lemma run_awaiting_removed:
  assumes "phase st = AwaitRemoved thrown" and "removed st = Pending"
    and "Removed \<notin> set evs" and "RemoveFailed \<notin> set evs"
  shows "phase (run invs args st evs) = AwaitRemoved thrown \<and> removed (run invs args st evs) = Pending
         \<and> filter is_Unsubscribe (trace (run invs args st evs)) = filter is_Unsubscribe (trace st)"
  using assms
proof (induction evs arbitrary: st)
  case Nil
  then show ?case by simp
next
  case (Cons ev evs)
  have ev: "ev \<noteq> Removed" "ev \<noteq> RemoveFailed" and evs: "Removed \<notin> set evs" "RemoveFailed \<notin> set evs"
    using Cons.prems(3,4) by auto
  note s = step_awaiting_removed [OF Cons.prems(1,2) ev, of invs args]
  from s have "phase (step invs args st ev) = AwaitRemoved thrown"
    "removed (step invs args st ev) = Pending"
    by blast+
  from Cons.IH [OF this evs] s show ?case
    by (simp del: step.simps)
qed

text \<open>No handle is invoked while \<open>cacheEntryRemoved\<close> has not resolved.\<close>

lemma step_closed_after_removed:
  assumes "removed st \<noteq> Resolved \<longrightarrow> filter is_Unsubscribe (trace st) = []"
  shows "removed (step invs args st ev) \<noteq> Resolved \<longrightarrow>
           filter is_Unsubscribe (trace (step invs args st ev)) = []"
  using assms
  by (cases ev)
    (auto simp: Let_def promiseAll_def finallyBlock_def split: phase.splits option.splits signal.splits)

lemma exec_closed_after_removed:
  "removed (exec invs args v evs) \<noteq> Resolved \<longrightarrow>
     filter is_Unsubscribe (trace (exec invs args v evs)) = []"
proof (induction evs rule: rev_induct)
  case Nil
  then show ?case by (simp add: exec_def)
next
  case (snoc ev evs)
  from step_closed_after_removed [OF snoc.IH, of invs args ev]
  show ?case by (simp add: exec_def del: step.simps)
qed

subsection \<open>A subscribe call that rejects\<close>

text \<open>
  What the handler does when the subscribe call of descriptor \<open>i\<close> rejects while it
  awaits the acknowledgments. Whatever happens afterwards, the subscribe calls made are
  exactly the one call for each descriptor: none is repeated and none is missing. The handler
  enters its \<open>finally\<close> block. If \<open>cacheEntryRemoved\<close> is pending, the handler stays
  suspended there and invokes no handle until it resolves, through any further events; when
  it resolves, the handler invokes the handles held in \<open>unsubscribes\<close> at that moment (every
  one of them, once, when none throws; up to the first one that throws otherwise) and
  finishes. If \<open>cacheEntryRemoved\<close> has resolved already, the handler invokes the handles
  held at the rejection and finishes. A handle recorded after that is outside this loop.
\<close>

lemma rejected_subscribe_teardown_at_removal:
  assumes "phase (exec invs args v (Loaded # pre)) = AwaitAll"
    and "i < length (tasks (exec invs args v (Loaded # pre)))"
    and "tasks (exec invs args v (Loaded # pre)) ! i = InFlight"
  shows "filter is_Call (trace (exec invs args v (Loaded # pre @ Nack i # evs)))
           = map (\<lambda>i. Call (command (invs ! i)) (service (invs ! i)) i) [0..<length invs]
         \<and> (removed (exec invs args v (Loaded # pre)) = Pending
              \<and> Removed \<notin> set mid \<and> RemoveFailed \<notin> set mid \<longrightarrow>
              phase (exec invs args v (Loaded # pre @ Nack i # mid)) = AwaitRemoved True
              \<and> filter is_Unsubscribe (trace (exec invs args v (Loaded # pre @ Nack i # mid))) = []
              \<and> trace (exec invs args v (Loaded # pre @ Nack i # mid @ [Removed]))
                  = trace (exec invs args v (Loaded # pre @ Nack i # mid))
                      @ map Unsubscribe
                          (invoked (unsubscribes (exec invs args v (Loaded # pre @ Nack i # mid))))
              \<and> (\<not> list_ex throws (unsubscribes (exec invs args v (Loaded # pre @ Nack i # mid))) \<longrightarrow>
                    filter is_Unsubscribe
                        (trace (exec invs args v (Loaded # pre @ Nack i # mid @ [Removed])))
                      = map Unsubscribe (unsubscribes (exec invs args v (Loaded # pre @ Nack i # mid))))
              \<and> finished (exec invs args v (Loaded # pre @ Nack i # mid @ [Removed])))
         \<and> (removed (exec invs args v (Loaded # pre)) = Resolved \<longrightarrow>
              trace (exec invs args v (Loaded # pre @ [Nack i]))
                = trace (exec invs args v (Loaded # pre))
                    @ map Unsubscribe (invoked (unsubscribes (exec invs args v (Loaded # pre))))
              \<and> finished (exec invs args v (Loaded # pre @ [Nack i])))"
proof -
  let ?st = "exec invs args v (Loaded # pre)"
  let ?st1 = "step invs args ?st (Nack i)"
  let ?st2 = "run invs args ?st1 mid"
  have e1: "exec invs args v (Loaded # pre @ [Nack i]) = ?st1"
    by (simp add: exec_def del: step.simps)
  have e2: "exec invs args v (Loaded # pre @ Nack i # mid) = ?st2"
    by (simp add: exec_def del: step.simps)
  have e3: "exec invs args v (Loaded # pre @ Nack i # mid @ [Removed]) = step invs args ?st2 Removed"
    by (simp add: exec_def del: step.simps)
  have calls: "filter is_Call (trace (exec invs args v (Loaded # pre @ Nack i # evs)))
                 = map (\<lambda>i. Call (command (invs ! i)) (service (invs ! i)) i) [0..<length invs]"
    using calls_after_Loaded [of "[]" invs args v "pre @ Nack i # evs"] by simp
  have pending: "phase ?st2 = AwaitRemoved True \<and> filter is_Unsubscribe (trace ?st2) = []
      \<and> trace (step invs args ?st2 Removed) = trace ?st2 @ map Unsubscribe (invoked (unsubscribes ?st2))
      \<and> (\<not> list_ex throws (unsubscribes ?st2) \<longrightarrow>
            filter is_Unsubscribe (trace (step invs args ?st2 Removed))
              = map Unsubscribe (unsubscribes ?st2))
      \<and> finished (step invs args ?st2 Removed)"
    if p: "removed ?st = Pending" and m: "Removed \<notin> set mid" "RemoveFailed \<notin> set mid"
  proof -
    have st1: "phase ?st1 = AwaitRemoved True" "removed ?st1 = Pending"
      using assms p by (simp_all add: Let_def finallyBlock_def)
    note aw = run_awaiting_removed [OF st1 m, of invs args]
    have closed: "filter is_Unsubscribe (trace ?st2) = []"
      using exec_closed_after_removed [of invs args v "Loaded # pre @ Nack i # mid"] aw
      unfolding e2 by simp
    have fin: "step invs args ?st2 Removed = afterRemoved True (?st2\<lparr>removed := Resolved\<rparr>)"
      using aw by simp
    show ?thesis
      using aw closed unfolding fin by (simp add: afterRemoved_eq finished_def invoked_no_throw)
  qed
  have resolved: "trace ?st1 = trace ?st @ map Unsubscribe (invoked (unsubscribes ?st))
      \<and> finished ?st1"
    if r: "removed ?st = Resolved"
    using assms r by (simp add: Let_def finallyBlock_def afterRemoved_eq finished_def)
  show ?thesis
    unfolding e1 e2 e3 using calls pending resolved by blast
qed

lemma rejected_subscribe_teardown_at_removal_example:
  "trace (exec [subBalance, subTransactions] 1 w0
      (Loaded # [] @ Nack 0 # [Ack 1 \<lparr>data = Some (Handle 4 False)\<rparr>] @ [Removed]))
     = [Call ''sub_balance'' ''wallet'' 0, Call ''sub_transactions'' ''wallet'' 1,
        Unsubscribe (Handle 4 False)]
   \<and> phase (exec [subBalance, subTransactions] 1 w0
      (Loaded # [] @ Nack 0 # [Ack 1 \<lparr>data = Some (Handle 4 False)\<rparr>])) = AwaitRemoved True
   \<and> finished (exec [subBalance, subTransactions] 1 w0
      (Loaded # [] @ Nack 0 # [Ack 1 \<lparr>data = Some (Handle 4 False)\<rparr>] @ [Removed]))
   \<and> trace (exec [subBalance, subTransactions] 1 w0
      (Loaded # [Ack 1 \<lparr>data = Some (Handle 4 False)\<rparr>, Removed] @ [Nack 0]))
     = [Call ''sub_balance'' ''wallet'' 0, Call ''sub_transactions'' ''wallet'' 1,
        Unsubscribe (Handle 4 False)]
   \<and> finished (exec [subBalance, subTransactions] 1 w0
      (Loaded # [Ack 1 \<lparr>data = Some (Handle 4 False)\<rparr>, Removed] @ [Nack 0]))"
  using rejected_subscribe_teardown_at_removal [of "[subBalance, subTransactions]" 1 w0 "[]" 0
      "[]" "[Ack 1 \<lparr>data = Some (Handle 4 False)\<rparr>]"]
    rejected_subscribe_teardown_at_removal [of "[subBalance, subTransactions]" 1 w0
      "[Ack 1 \<lparr>data = Some (Handle 4 False)\<rparr>, Removed]" 0 "[]" "[]"]
  by (simp add: exec_def promiseAll_def finallyBlock_def afterRemoved_eq finished_def upt_rec
      subBalance_def subTransactions_def)

subsection \<open>A handle that arrives after the teardown\<close>

text \<open>
  C1 fails on the code. Take two descriptors. The first subscribe call rejects, which ends
  \<open>await Promise.all(...)\<close> and takes the handler into its \<open>finally\<close> block;
  \<open>cacheEntryRemoved\<close> resolves, the loop runs over the empty \<open>unsubscribes\<close> and the handler
  finishes. The second subscribe call then resolves with a handle \<open>h\<close>: the handle is
  recorded, and whatever happens afterwards it is never invoked.
\<close>

theorem late_handle_after_rejection_never_closed:
  "h \<in> set (unsubscribes (exec [a, b] args v
        ([Loaded, Nack 0, Removed, Ack 1 \<lparr>data = Some h\<rparr>] @ evs)))
   \<and> Unsubscribe h \<notin> set (trace (exec [a, b] args v
        ([Loaded, Nack 0, Removed, Ack 1 \<lparr>data = Some h\<rparr>] @ evs)))
   \<and> finished (exec [a, b] args v ([Loaded, Nack 0, Removed, Ack 1 \<lparr>data = Some h\<rparr>] @ evs))"
proof -
  let ?st = "exec [a, b] args v [Loaded, Nack 0, Removed, Ack 1 \<lparr>data = Some h\<rparr>]"
  have st: "finished ?st" "filter is_Unsubscribe (trace ?st) = []" "h \<in> set (unsubscribes ?st)"
    by (simp_all add: exec_def promiseAll_def finallyBlock_def afterRemoved_eq finished_def upt_rec)
  have e: "exec [a, b] args v ([Loaded, Nack 0, Removed, Ack 1 \<lparr>data = Some h\<rparr>] @ evs)
             = run [a, b] args ?st evs"
    by (simp add: exec_def del: step.simps)
  show ?thesis
    unfolding e
    using run_finished [OF st(1), of "[a, b]" args evs] st(2,3)
      run_unsubscribes_mono [of ?st "[a, b]" args evs]
    by (auto dest: not_in_trace)
qed


subsection \<open>Acknowledgments in any order\<close>

lemma length_fold_settle [simp]:
  "length (fold (\<lambda>i ts. ts[i := Settled]) is ts) = length ts"
  by (induction "is" arbitrary: ts) simp_all

lemma nth_fold_settle:
  "j < length ts \<Longrightarrow>
     fold (\<lambda>i ts. ts[i := Settled]) is ts ! j = (if j \<in> set is then Settled else ts ! j)"
  by (induction "is" arbitrary: ts) (auto simp: nth_list_update)

lemma all_settled_fold:
  "{..<length ts} \<subseteq> set is \<Longrightarrow> list_all (\<lambda>t. t = Settled) (fold (\<lambda>i ts. ts[i := Settled]) is ts)"
  by (auto simp: list_all_length nth_fold_settle)

lemma map_filter_Cons_data:
  "List.map_filter (\<lambda>(i, r). data r) ((i, r) # acks)
     = (case data r of Some h \<Rightarrow> [h] | None \<Rightarrow> []) @ List.map_filter (\<lambda>(i, r). data r) acks"
  by (simp add: List.map_filter_def split: option.splits)

lemma map_filter_append_data:
  "List.map_filter f (xs @ ys) = List.map_filter f xs @ List.map_filter f ys"
  by (simp add: List.map_filter_def)

lemma promiseAll_in_flight:
  "i < length (tasks st) \<Longrightarrow> tasks st ! i = InFlight \<Longrightarrow> promiseAll st = st"
  by (auto simp: promiseAll_def list_all_length)

text \<open>
  Acknowledgments of calls in flight, each call at most once: the calls are settled and the
  handles recorded in the order of arrival, and \<open>await Promise.all(...)\<close> is passed when the
  last call is settled.
\<close>

lemma run_acks:
  assumes "phase s = AwaitAll" and "distinct (map fst acks)"
    and "\<forall>i\<in>set (map fst acks). i < length (tasks s) \<and> tasks s ! i = InFlight"
  shows "run invs args (promiseAll s) (map (\<lambda>(i, r). Ack i r) acks)
           = promiseAll (s\<lparr>tasks := fold (\<lambda>i ts. ts[i := Settled]) (map fst acks) (tasks s),
                           unsubscribes := unsubscribes s @ List.map_filter (\<lambda>(i, r). data r) acks\<rparr>)"
  using assms
proof (induction acks arbitrary: s)
  case Nil
  then show ?case by (simp add: List.map_filter_def)
next
  case (Cons a acks)
  obtain i r where a: "a = (i, r)" by (cases a)
  let ?s2 = "s\<lparr>tasks := (tasks s)[i := Settled],
               unsubscribes := unsubscribes s @ (case data r of Some h \<Rightarrow> [h] | None \<Rightarrow> [])\<rparr>"
  have i: "i < length (tasks s)" "tasks s ! i = InFlight"
    using Cons.prems(3) a by simp_all
  have ps: "promiseAll s = s"
    using i by (rule promiseAll_in_flight)
  have st: "step invs args s (Ack i r) = promiseAll ?s2"
    using i by (cases "data r") (simp_all add: Let_def)
  have p2: "phase ?s2 = AwaitAll" and d2: "distinct (map fst acks)"
    using Cons.prems(1,2) by simp_all
  have f2: "\<forall>j\<in>set (map fst acks). j < length (tasks ?s2) \<and> tasks ?s2 ! j = InFlight"
    using Cons.prems(2,3) a by (auto simp: nth_list_update)
  have "run invs args (promiseAll s) (map (\<lambda>(i, r). Ack i r) (a # acks))
          = run invs args (promiseAll ?s2) (map (\<lambda>(i, r). Ack i r) acks)"
    using ps st a by (simp del: step.simps)
  also have "\<dots> = promiseAll (?s2\<lparr>tasks := fold (\<lambda>i ts. ts[i := Settled]) (map fst acks) (tasks ?s2),
                                  unsubscribes := unsubscribes ?s2 @ List.map_filter (\<lambda>(i, r). data r) acks\<rparr>)"
    using Cons.IH [OF p2 d2 f2] .
  finally show ?case
    by (simp add: a del: step.simps split: option.splits)
qed

lemma step_Removed_promiseAll:
  assumes "phase s = AwaitAll" and "removed s = Pending"
  shows "step invs args (promiseAll s) Removed = promiseAll (s\<lparr>removed := Resolved\<rparr>)"
  using assms by (simp add: promiseAll_def finallyBlock_def afterRemoved_eq)

lemma exec_acks_Removed_acks:
  assumes "distinct (map fst (acks1 @ acks2))"
    and "set (map fst (acks1 @ acks2)) = {..<length invs}"
  shows "exec invs args v
           (Loaded # map (\<lambda>(i, r). Ack i r) acks1 @ Removed # map (\<lambda>(i, r). Ack i r) acks2)
         = afterRemoved False
             ((activate invs (init v))
                \<lparr>tasks := fold (\<lambda>i ts. ts[i := Settled]) (map fst (acks1 @ acks2))
                            (map (\<lambda>_. InFlight) invs),
                 unsubscribes := List.map_filter (\<lambda>(i, r). data r) (acks1 @ acks2),
                 removed := Resolved\<rparr>)"
proof -
  let ?settle = "\<lambda>is ts. fold (\<lambda>i ts. ts[i := Settled]) is (ts::task list)"
  let ?mf = "List.map_filter (\<lambda>(i, r). data r)"
  let ?a0 = "activate invs (init v)"
  let ?a1 = "?a0\<lparr>tasks := ?settle (map fst acks1) (tasks ?a0),
                  unsubscribes := unsubscribes ?a0 @ ?mf acks1\<rparr>"
  let ?a2 = "?a1\<lparr>removed := Resolved\<rparr>"
  let ?a3 = "?a2\<lparr>tasks := ?settle (map fst acks2) (tasks ?a2),
                  unsubscribes := unsubscribes ?a2 @ ?mf acks2\<rparr>"
  have d1: "distinct (map fst acks1)" and d2: "distinct (map fst acks2)"
    and disj: "set (map fst acks1) \<inter> set (map fst acks2) = {}"
    using assms(1) by simp_all
  have lt: "\<forall>i\<in>set (map fst acks1) \<union> set (map fst acks2). i < length invs"
    using assms(2) by auto
  have f1: "\<forall>i\<in>set (map fst acks1). i < length (tasks ?a0) \<and> tasks ?a0 ! i = InFlight"
    using lt by simp
  have f2: "\<forall>i\<in>set (map fst acks2). i < length (tasks ?a2) \<and> tasks ?a2 ! i = InFlight"
    using lt disj by (auto simp: nth_fold_settle)
  have s0: "step invs args (init v) Loaded = promiseAll ?a0"
    by simp
  have s1: "run invs args (promiseAll ?a0) (map (\<lambda>(i, r). Ack i r) acks1) = promiseAll ?a1"
    using run_acks [OF _ d1 f1, of invs args] by simp
  have s2: "step invs args (promiseAll ?a1) Removed = promiseAll ?a2"
    using step_Removed_promiseAll [of ?a1 invs args] by simp
  have s3: "run invs args (promiseAll ?a2) (map (\<lambda>(i, r). Ack i r) acks2) = promiseAll ?a3"
    using run_acks [OF _ d2 f2, of invs args] by simp
  have t3: "tasks ?a3 = ?settle (map fst (acks1 @ acks2)) (map (\<lambda>_. InFlight) invs)"
    by simp
  have "list_all (\<lambda>t. t = Settled) (tasks ?a3)"
    unfolding t3 using assms(2) by (intro all_settled_fold) simp
  then have s4: "promiseAll ?a3 = afterRemoved False ?a3"
    by (simp add: promiseAll_def finallyBlock_def)
  have "exec invs args v
          (Loaded # map (\<lambda>(i, r). Ack i r) acks1 @ Removed # map (\<lambda>(i, r). Ack i r) acks2)
        = promiseAll ?a3"
    unfolding exec_def run_Cons run_append s0 s1 s2 s3 ..
  also note s4
  finally show ?thesis
    by (simp add: map_filter_append_data afterRemoved_eq)
qed

text \<open>
  C6. Let every subscribe call resolve, in any order and some of them after
  \<open>cacheEntryRemoved\<close> has resolved, each with or without a handle. A response without a
  handle records nothing: \<open>unsubscribes\<close> holds the handles of the responses that carry one,
  in the order of arrival. The teardown invokes exactly these handles (up to the first one
  that throws) and nothing else, and it completes normally: when no handle throws, each
  recorded handle is invoked once and the handler's promise is fulfilled.
\<close>

theorem teardown_over_partially_activated_set:
  assumes "distinct (map fst (acks1 @ acks2))"
    and "set (map fst (acks1 @ acks2)) = {..<length invs}"
  shows "unsubscribes (exec invs args v
           (Loaded # map (\<lambda>(i, r). Ack i r) acks1 @ Removed # map (\<lambda>(i, r). Ack i r) acks2))
           = List.map_filter (\<lambda>(i, r). data r) (acks1 @ acks2)
         \<and> trace (exec invs args v
           (Loaded # map (\<lambda>(i, r). Ack i r) acks1 @ Removed # map (\<lambda>(i, r). Ack i r) acks2))
           = map (\<lambda>i. Call (command (invs ! i)) (service (invs ! i)) i) [0..<length invs]
               @ map Unsubscribe (invoked (List.map_filter (\<lambda>(i, r). data r) (acks1 @ acks2)))
         \<and> phase (exec invs args v
           (Loaded # map (\<lambda>(i, r). Ack i r) acks1 @ Removed # map (\<lambda>(i, r). Ack i r) acks2))
           = (if list_ex throws (List.map_filter (\<lambda>(i, r). data r) (acks1 @ acks2))
              then Failed else Fulfilled)
         \<and> (\<not> list_ex throws (List.map_filter (\<lambda>(i, r). data r) (acks1 @ acks2)) \<longrightarrow>
              filter is_Unsubscribe (trace (exec invs args v
                (Loaded # map (\<lambda>(i, r). Ack i r) acks1 @ Removed # map (\<lambda>(i, r). Ack i r) acks2)))
              = map Unsubscribe (List.map_filter (\<lambda>(i, r). data r) (acks1 @ acks2)))
         \<and> (data r = None \<longrightarrow> unsubscribes (step invs args st (Ack j r)) = unsubscribes st)"
proof -
  have "unsubscribes (step invs args st (Ack j r)) = unsubscribes st" if "data r = None"
    using that by (simp add: Let_def)
  then show ?thesis
    unfolding exec_acks_Removed_acks [OF assms]
    by (simp add: afterRemoved_eq invoked_no_throw del: step.simps)
qed

theorem teardown_over_partially_activated_set_witness:
  "unsubscribes (exec [subBalance, subTransactions, subBoth] 1 w0
      [Loaded, Ack 2 \<lparr>data = Some (Handle 5 False)\<rparr>, Ack 0 \<lparr>data = None\<rparr>, Removed,
       Ack 1 \<lparr>data = Some (Handle 6 False)\<rparr>])
     = [Handle 5 False, Handle 6 False]
   \<and> trace (exec [subBalance, subTransactions, subBoth] 1 w0
      [Loaded, Ack 2 \<lparr>data = Some (Handle 5 False)\<rparr>, Ack 0 \<lparr>data = None\<rparr>, Removed,
       Ack 1 \<lparr>data = Some (Handle 6 False)\<rparr>])
     = [Call ''sub_balance'' ''wallet'' 0, Call ''sub_transactions'' ''wallet'' 1,
        Call ''sub_coins'' ''wallet'' 2, Unsubscribe (Handle 5 False), Unsubscribe (Handle 6 False)]
   \<and> phase (exec [subBalance, subTransactions, subBoth] 1 w0
      [Loaded, Ack 2 \<lparr>data = Some (Handle 5 False)\<rparr>, Ack 0 \<lparr>data = None\<rparr>, Removed,
       Ack 1 \<lparr>data = Some (Handle 6 False)\<rparr>]) = Fulfilled
   \<and> unsubscribes (step [subBalance, subTransactions, subBoth] 1
        (exec [subBalance, subTransactions, subBoth] 1 w0 [Loaded]) (Ack 0 \<lparr>data = None\<rparr>)) = []"
proof -
  let ?acks1 = "[(2::nat, \<lparr>data = Some (Handle 5 False)\<rparr>), (0, \<lparr>data = None\<rparr>)]"
  let ?acks2 = "[(1::nat, \<lparr>data = Some (Handle 6 False)\<rparr>)]"
  let ?invs = "[subBalance, subTransactions, subBoth]"
  have d: "distinct (map fst (?acks1 @ ?acks2))"
    by simp
  have s: "set (map fst (?acks1 @ ?acks2)) = {..<length ?invs}"
    by auto
  show ?thesis
    using teardown_over_partially_activated_set [OF d s, of 1 w0 "\<lparr>data = None\<rparr>"
        "exec ?invs 1 w0 [Loaded]" 0]
    by (simp add: List.map_filter_def upt_rec exec_def promiseAll_def
        subBalance_def subTransactions_def subBoth_def)
qed

subsection \<open>The order of the teardown\<close>









end
